theory Spec2Isabelle
  imports Main "HOL-Library.Word"
begin

unbundle bit_operations_syntax

section \<open>Snappy block decompression (python_snappy/snappy.py)\<close>

text \<open>
  The input is a Python \<open>bytes\<close> object: a list of bytes. Indexing it gives a Python
  integer between 0 and 255, here \<open>unat\<close> of the byte. All the integers of the
  decoder (cursors, lengths, offsets, the varint accumulator) are unbounded and never
  negative; they are natural numbers. The two subtractions of the source, \<open>length - 60\<close>
  and \<open>out_pos - offset + i\<close>, are executed only after the checks \<open>length > 60\<close> and
  \<open>offset \<le> out_pos\<close>, so that truncating subtraction agrees with Python's.
  Every read \<open>data[...]\<close> of the source comes right after a test that raises when the
  index is beyond the input, and is written \<open>data ! ...\<close> under the same test. The
  reads and writes of the output buffer have no such test of their own, and are modelled
  with the exception that Python raises out of range.
\<close>

type_synonym byte = "8 word"

subsection \<open>Errors\<close>

text \<open>
  Every failure of the source is \<open>raise CompressionError(message, algorithm="snappy")\<close>.
  There is one constructor for each message; the two numbers of the formatted messages
  are kept as arguments. \<open>IndexError\<close> is what Python raises when a \<open>bytearray\<close> is
  indexed out of range.
\<close>

datatype error =
    Truncated_varint
  | Varint_too_large
  | Truncated_literal_length
  | Truncated_literal_data
  | Output_overflow_literal
  | Truncated_copy1_offset
  | Truncated_copy2_offset
  | Truncated_copy4_offset
  | Invalid_zero_offset
  | Copy_offset_exceeds nat nat
  | Output_overflow_copy1
  | Output_overflow_copy2
  | Output_overflow_copy4
  | Output_size_mismatch nat nat
  | IndexError

text \<open>
  Modelled from the spec: \<open>python_snappy/exceptions.py\<close>, which declares the one class
  \<open>CompressionError\<close> that every \<open>raise\<close> uses, is not among the sources, and the
  source tells the failures apart by their messages only. The four kinds are those of
  section 7 of the specification (Truncated, Overflow, InvalidOffset, SizeMismatch), given
  to each message by what the message reports; \<open>Uncaught\<close> is for an exception that is
  not a \<open>CompressionError\<close>.
\<close>

datatype error_kind = Truncated | Overflow | InvalidOffset | SizeMismatch | Uncaught

fun kind_of :: "error \<Rightarrow> error_kind" where
  "kind_of Truncated_varint = Truncated"
| "kind_of Varint_too_large = Overflow"
| "kind_of Truncated_literal_length = Truncated"
| "kind_of Truncated_literal_data = Truncated"
| "kind_of Output_overflow_literal = Overflow"
| "kind_of Truncated_copy1_offset = Truncated"
| "kind_of Truncated_copy2_offset = Truncated"
| "kind_of Truncated_copy4_offset = Truncated"
| "kind_of Invalid_zero_offset = InvalidOffset"
| "kind_of (Copy_offset_exceeds offset out_pos) = InvalidOffset"
| "kind_of Output_overflow_copy1 = Overflow"
| "kind_of Output_overflow_copy2 = Overflow"
| "kind_of Output_overflow_copy4 = Overflow"
| "kind_of (Output_size_mismatch expected got) = SizeMismatch"
| "kind_of IndexError = Uncaught"

subsection \<open>\<open>_decode_varint\<close>\<close>

text \<open>
  The \<open>while True\<close> loop of \<open>_decode_varint\<close> (lines 20 to 30), with its three
  variables as arguments. Each iteration that does not leave the loop moves \<open>pos\<close>
  forward below \<open>len(data)\<close>, which is the termination argument.
\<close>

function varint_loop :: "byte list \<Rightarrow> nat \<Rightarrow> nat \<Rightarrow> nat \<Rightarrow> error + (nat \<times> nat)" where
  "varint_loop data pos result shift =
     (if pos \<ge> length data then Inl Truncated_varint
      else if (unat (data ! pos)) AND 0x80 = 0
        then Inr (result OR push_bit shift ((unat (data ! pos)) AND 0x7F), pos + 1)
      else if shift + 7 > 32 then Inl Varint_too_large
      else varint_loop data (pos + 1)
             (result OR push_bit shift ((unat (data ! pos)) AND 0x7F)) (shift + 7))"
  by pat_completeness auto
termination
  by (relation "measure (\<lambda>(data, pos, result, shift). length data - pos)") auto

definition decode_varint :: "byte list \<Rightarrow> nat \<Rightarrow> error + (nat \<times> nat)" where
  "decode_varint data pos = varint_loop data pos 0 0"

subsection \<open>The elements\<close>

text \<open>
  Lines 76 to 88: the length of a literal and the cursor after its length bytes.
  The \<open>for\<close> loop over \<open>range(extra_bytes)\<close> is a fold over \<open>[0..<extra_bytes]\<close>.
\<close>

definition literal_length :: "byte list \<Rightarrow> nat \<Rightarrow> nat \<Rightarrow> error + (nat \<times> nat)" where
  "literal_length data tag pos =
     (let len = drop_bit 2 tag + 1 in
      if len \<le> 60 then Inr (len, pos)
      else
        let extra_bytes = len - 60 in
        if pos + extra_bytes > length data then Inl Truncated_literal_length
        else Inr (fold (\<lambda>i len. len + push_bit (i * 8) (unat (data ! (pos + i))))
                    [0..<extra_bytes] 1,
                  pos + extra_bytes))"

text \<open>
  Lines 74 to 98. The slice assignment \<open>output[out_pos : out_pos + length] = ...\<close>
  replaces that slice of the buffer by the slice \<open>data[pos : pos + length]\<close>.
  The result is the new \<open>(pos, output, out_pos)\<close>.
\<close>

definition literal ::
  "byte list \<Rightarrow> nat \<Rightarrow> nat \<Rightarrow> nat \<Rightarrow> byte list \<Rightarrow> nat \<Rightarrow> error + (nat \<times> byte list \<times> nat)" where
  "literal data uncompressed_len tag pos output out_pos =
     (case literal_length data tag pos of
        Inl e \<Rightarrow> Inl e
      | Inr (len, pos) \<Rightarrow>
          if pos + len > length data then Inl Truncated_literal_data
          else if out_pos + len > uncompressed_len then Inl Output_overflow_literal
          else Inr (pos + len,
                    take out_pos output @ take len (drop pos data) @ drop (out_pos + len) output,
                    out_pos + len))"

text \<open>
  The loop \<open>for i in range(length): output[out_pos + i] = output[out_pos - offset + i]\<close>
  (lines 119 to 120, 141 to 142 and 165 to 166). An index outside the buffer raises.
\<close>

definition copy_byte :: "nat \<Rightarrow> nat \<Rightarrow> nat \<Rightarrow> error + byte list \<Rightarrow> error + byte list" where
  "copy_byte out_pos offset i r =
     (case r of
        Inl e \<Rightarrow> Inl e
      | Inr output \<Rightarrow>
          if out_pos - offset + i < length output \<and> out_pos + i < length output
          then Inr (output[out_pos + i := output ! (out_pos - offset + i)])
          else Inl IndexError)"

definition copy_bytes :: "byte list \<Rightarrow> nat \<Rightarrow> nat \<Rightarrow> nat \<Rightarrow> error + byte list" where
  "copy_bytes output out_pos offset len = fold (copy_byte out_pos offset) [0..<len] (Inr output)"

text \<open>
  Lines 109 to 121, 131 to 143 and 155 to 167: the three copy branches run the same
  text once the length and the offset are known, with only the message of the overflow
  error differing, which is the first argument here.
\<close>

definition copy_element ::
  "error \<Rightarrow> nat \<Rightarrow> nat \<Rightarrow> nat \<Rightarrow> nat \<Rightarrow> byte list \<Rightarrow> nat \<Rightarrow> error + (nat \<times> byte list \<times> nat)" where
  "copy_element overflow len offset uncompressed_len pos output out_pos =
     (if offset = 0 then Inl Invalid_zero_offset
      else if offset > out_pos then Inl (Copy_offset_exceeds offset out_pos)
      else if out_pos + len > uncompressed_len then Inl overflow
      else
        case copy_bytes output out_pos offset len of
          Inl e \<Rightarrow> Inl e
        | Inr output \<Rightarrow> Inr (pos, output, out_pos + len))"

text \<open>The length and the offset of the three kinds of copy, from the tag and the input.\<close>

definition copy1_length :: "nat \<Rightarrow> nat" where
  "copy1_length tag = (drop_bit 2 tag AND 0x07) + 4"

definition copy1_offset :: "byte list \<Rightarrow> nat \<Rightarrow> nat \<Rightarrow> nat" where
  "copy1_offset data tag pos = push_bit 8 (drop_bit 5 tag) OR unat (data ! pos)"

definition copy2_offset :: "byte list \<Rightarrow> nat \<Rightarrow> nat" where
  "copy2_offset data pos = unat (data ! pos) OR push_bit 8 (unat (data ! (pos + 1)))"

definition copy4_offset :: "byte list \<Rightarrow> nat \<Rightarrow> nat" where
  "copy4_offset data pos =
     unat (data ! pos) OR push_bit 8 (unat (data ! (pos + 1)))
       OR push_bit 16 (unat (data ! (pos + 2))) OR push_bit 24 (unat (data ! (pos + 3)))"

text \<open>
  One iteration of the loop of \<open>decompress\<close> (lines 70 to 167), entered with
  \<open>pos < len(data)\<close>: the tag is read, the cursor moves past it, and the two low bits
  of the tag choose the branch.
\<close>

definition decode_element ::
  "byte list \<Rightarrow> nat \<Rightarrow> nat \<Rightarrow> byte list \<Rightarrow> nat \<Rightarrow> error + (nat \<times> byte list \<times> nat)" where
  "decode_element data uncompressed_len pos0 output out_pos =
     (let tag = unat (data ! pos0);
          pos = pos0 + 1;
          element_type = tag AND 0x03
      in
      if element_type = 0 then literal data uncompressed_len tag pos output out_pos
      else if element_type = 1 then
        if pos \<ge> length data then Inl Truncated_copy1_offset
        else copy_element Output_overflow_copy1 (copy1_length tag) (copy1_offset data tag pos)
               uncompressed_len (pos + 1) output out_pos
      else if element_type = 2 then
        if pos + 2 > length data then Inl Truncated_copy2_offset
        else copy_element Output_overflow_copy2 (drop_bit 2 tag + 1) (copy2_offset data pos)
               uncompressed_len (pos + 2) output out_pos
      else
        if pos + 4 > length data then Inl Truncated_copy4_offset
        else copy_element Output_overflow_copy4 (drop_bit 2 tag + 1) (copy4_offset data pos)
               uncompressed_len (pos + 4) output out_pos)"

subsection \<open>\<open>decompress\<close>\<close>

text \<open>
  The loop of line 69, \<open>while pos < len(data) and out_pos < uncompressed_len\<close>, with
  its three variables as arguments; an exception raised by the body leaves the loop.
  The body moves \<open>pos\<close> forward and never beyond \<open>len(data)\<close>.
\<close>

function decode_loop ::
  "byte list \<Rightarrow> nat \<Rightarrow> nat \<Rightarrow> byte list \<Rightarrow> nat \<Rightarrow> error + (nat \<times> byte list \<times> nat)" where
  "decode_loop data uncompressed_len pos output out_pos =
     (if pos < length data \<and> out_pos < uncompressed_len then
        case decode_element data uncompressed_len pos output out_pos of
          Inl e \<Rightarrow> Inl e
        | Inr (pos', output', out_pos') \<Rightarrow> decode_loop data uncompressed_len pos' output' out_pos'
      else Inr (pos, output, out_pos))"
  by pat_completeness auto
termination
proof (relation "measure (\<lambda>(data, uncompressed_len, pos, output, out_pos). length data - pos)")
  show "wf (measure (\<lambda>(data, uncompressed_len, pos, output, out_pos). length data - pos))"
    by simp
next
  fix data :: "byte list" and uncompressed_len pos out_pos :: nat and buf :: "byte list"
    and x y pos' buf' out_pos'
  assume loop: "pos < length data \<and> out_pos < uncompressed_len"
    and "decode_element data uncompressed_len pos buf out_pos = Inr x"
    and "(pos', y) = x" and "(buf', out_pos') = y"
  then have "decode_element data uncompressed_len pos buf out_pos = Inr (pos', buf', out_pos')"
    by simp
  then have "pos < pos'"
    by (auto simp: decode_element_def literal_def literal_length_def copy_element_def Let_def
        split: if_splits sum.splits)
  with loop
  show "((data, uncompressed_len, pos', buf', out_pos'),
         (data, uncompressed_len, pos, buf, out_pos))
        \<in> measure (\<lambda>(data, uncompressed_len, pos, output, out_pos). length data - pos)"
    by (simp add: diff_less_mono2)
qed

text \<open>
  \<open>decompress\<close> (lines 57 to 174): empty input gives empty output; otherwise the
  length is read at cursor 0, the buffer \<open>bytearray(uncompressed_len)\<close> is that many
  zero bytes, the loop runs, and the final test compares the two lengths.
\<close>

definition decompress :: "byte list \<Rightarrow> error + byte list" where
  "decompress data =
     (if data = [] then Inr []
      else
        case decode_varint data 0 of
          Inl e \<Rightarrow> Inl e
        | Inr (uncompressed_len, pos) \<Rightarrow>
            (case decode_loop data uncompressed_len pos (replicate uncompressed_len 0) 0 of
               Inl e \<Rightarrow> Inl e
             | Inr (pos, output, out_pos) \<Rightarrow>
                 if out_pos \<noteq> uncompressed_len
                 then Inl (Output_size_mismatch uncompressed_len out_pos)
                 else Inr output))"

subsection \<open>Vocabulary of the properties\<close>

text \<open>
  The test \<open>(byte & 0x80) == 0\<close> of line 26 fails for a byte that announces more bytes;
  \<open>byte & 0x7F\<close> of line 25 is what a byte contributes to the value.
\<close>

definition more_follows :: "byte \<Rightarrow> bool" where
  "more_follows b \<longleftrightarrow> unat b AND 0x80 \<noteq> 0"

definition low7 :: "byte \<Rightarrow> nat" where
  "low7 b = unat b AND 0x7F"

text \<open>
  The states \<open>(pos, output, out_pos)\<close> that the loop of \<open>decompress\<close> goes through
  from a given one: each step is one iteration, entered with the condition of line 69
  true and left without an exception.
\<close>

inductive reaches ::
  "byte list \<Rightarrow> nat \<Rightarrow> nat \<times> byte list \<times> nat \<Rightarrow> nat \<times> byte list \<times> nat \<Rightarrow> bool"
  for data :: "byte list" and uncompressed_len :: nat where
    start: "reaches data uncompressed_len s s"
  | step: "reaches data uncompressed_len s (pos, buf, out_pos) \<Longrightarrow>
           pos < length data \<Longrightarrow> out_pos < uncompressed_len \<Longrightarrow>
           decode_element data uncompressed_len pos buf out_pos = Inr s' \<Longrightarrow>
           reaches data uncompressed_len s s'"

code_pred reaches .

section \<open>Bits and bytes\<close>

declare varint_loop.simps [simp del]
declare decode_loop.simps [simp del]

lemma and_127_mod: "(x::nat) AND 127 = x mod 128"
proof -
  have "x AND mask 7 = x mod 2 ^ 7"
    by (simp add: take_bit_eq_mask [symmetric] take_bit_eq_mod)
  moreover have "mask 7 = (127::nat)"
    by (simp add: mask_eq_exp_minus_1)
  ultimately show ?thesis by simp
qed

lemma and_push_bit_zero:
  fixes r x :: nat
  assumes "r < 2 ^ s"
  shows "r AND push_bit s x = 0"
proof -
  have "r = take_bit s r" using assms by (simp add: take_bit_nat_eq_self)
  then have "r AND push_bit s x = take_bit s r AND push_bit s x" by simp
  also have "\<dots> = 0"
    by (rule bit_eqI) (auto simp: bit_simps)
  finally show ?thesis .
qed

lemma or_push_bit_add:
  fixes r x :: nat
  assumes "r < 2 ^ s"
  shows "r OR push_bit s x = r + x * 2 ^ s"
  using and_push_bit_zero [OF assms, of x]
  by (simp add: disjunctive_add_eq_or [symmetric] push_bit_eq_mult)

lemma drop_bit_2_byte: "drop_bit 2 (unat (b::byte)) \<le> 63"
proof -
  have "unat b < 256" using unsigned_less [of b] by simp
  then show ?thesis by (simp add: drop_bit_eq_div)
qed

lemma low7_le: "low7 b \<le> 127"
  by (simp add: low7_def and_127_mod)

section \<open>The varint reader\<close>

lemma varint_acc_bound:
  fixes result :: nat
  assumes "result < 2 ^ shift"
  shows "result + low7 b * 2 ^ shift < 2 ^ (shift + 7)"
proof -
  have "low7 b * 2 ^ shift \<le> 127 * 2 ^ shift"
    by (rule mult_le_mono1) (rule low7_le)
  with assms have "result + low7 b * 2 ^ shift < 2 ^ shift + 127 * 2 ^ shift"
    by (rule add_less_le_mono)
  also have "\<dots> = 2 ^ (shift + 7)"
    by (simp add: power_add)
  finally show ?thesis .
qed

lemma varint_loop_stop:
  assumes "pos < length data" "\<not> more_follows (data ! pos)" "result < 2 ^ shift"
  shows "varint_loop data pos result shift = Inr (result + low7 (data ! pos) * 2 ^ shift, pos + 1)"
  using assms
  by (subst varint_loop.simps) (simp add: more_follows_def low7_def or_push_bit_add del: push_bit_and)

lemma varint_loop_more:
  assumes "pos < length data" "more_follows (data ! pos)" "shift + 7 \<le> 32" "result < 2 ^ shift"
  shows "varint_loop data pos result shift =
         varint_loop data (pos + 1) (result + low7 (data ! pos) * 2 ^ shift) (shift + 7)"
  using assms
  by (subst varint_loop.simps) (simp add: more_follows_def low7_def or_push_bit_add del: push_bit_and)

lemma varint_loop_value:
  assumes "\<forall>i<k. more_follows (data ! (pos + i))" "\<not> more_follows (data ! (pos + k))"
    "pos + k < length data" "shift = 7 * j" "j + k \<le> 4" "result < 2 ^ shift"
  shows "varint_loop data pos result shift =
         Inr (result + (\<Sum>i\<le>k. low7 (data ! (pos + i)) * 2 ^ (7 * (j + i))), pos + k + 1)"
  using assms
proof (induction k arbitrary: pos result shift j)
  case 0
  then show ?case by (simp add: varint_loop_stop)
next
  case (Suc k)
  from Suc.prems have more: "more_follows (data ! pos)" and inr: "pos < length data"
    and sh: "shift + 7 \<le> 32"
    by auto
  let ?r = "result + low7 (data ! pos) * 2 ^ shift"
  have "varint_loop data (pos + 1) ?r (shift + 7) =
        Inr (?r + (\<Sum>i\<le>k. low7 (data ! (pos + 1 + i)) * 2 ^ (7 * (Suc j + i))), pos + 1 + k + 1)"
  proof (rule Suc.IH)
    show "\<forall>i<k. more_follows (data ! (pos + 1 + i))"
      using Suc.prems(1) by (simp add: All_less_Suc2)
    show "\<not> more_follows (data ! (pos + 1 + k))" using Suc.prems(2) by simp
    show "pos + 1 + k < length data" using Suc.prems(3) by simp
    show "shift + 7 = 7 * Suc j" using Suc.prems(4) by simp
    show "Suc j + k \<le> 4" using Suc.prems(5) by simp
    show "?r < 2 ^ (shift + 7)" using Suc.prems(6) by (rule varint_acc_bound)
  qed
  moreover have "varint_loop data pos result shift = varint_loop data (pos + 1) ?r (shift + 7)"
    using inr more sh Suc.prems(6) by (rule varint_loop_more)
  moreover have "(\<Sum>i\<le>Suc k. low7 (data ! (pos + i)) * 2 ^ (7 * (j + i))) =
      low7 (data ! pos) * 2 ^ shift + (\<Sum>i\<le>k. low7 (data ! (pos + 1 + i)) * 2 ^ (7 * (Suc j + i)))"
    using Suc.prems(4) by (simp add: sum.atMost_Suc_shift add.left_commute del: sum.atMost_Suc)
  ultimately show ?case by simp
qed

text \<open>
  C3. When the input at the cursor holds \<open>k\<close> bytes with the high bit set and then a byte
  with the high bit clear, and the shift \<open>7 * k\<close> reached at that byte is at most 32, the
  reader returns the sum of the low seven bits of byte \<open>i\<close> times \<open>2 ^ (7 * i)\<close>, the
  first byte being the least significant, and the cursor \<open>k + 1\<close> bytes further.
\<close>

theorem varint_value:
  assumes "\<forall>i<k. more_follows (data ! (pos + i))" and "\<not> more_follows (data ! (pos + k))"
    and "pos + k < length data" and "7 * k \<le> 32"
  shows "decode_varint data pos =
         Inr (\<Sum>i\<le>k. low7 (data ! (pos + i)) * 2 ^ (7 * i), pos + (k + 1))"
proof -
  from assms(4) have "0 + k \<le> 4" by simp
  from varint_loop_value [OF assms(1-3) _ this, of 0 0]
  show ?thesis by (simp add: decode_varint_def)
qed

theorem varint_value_witness:
  "decode_varint [0x96, 0x01] 0 = Inr (150, 2)"
  using varint_value [of 1 "[0x96, 0x01]" 0]
  by (simp add: more_follows_def low7_def)

lemma varint_overflow_aux:
  "shift = 7 * j \<Longrightarrow> j \<le> 4 \<Longrightarrow>
   (varint_loop data pos result shift = Inl Varint_too_large) =
   (pos + (5 - j) \<le> length data \<and> (\<forall>i<5 - j. more_follows (data ! (pos + i))))"
proof (induction data pos result shift arbitrary: j rule: varint_loop.induct)
  case (1 data pos result shift)
  show ?case
  proof (cases "pos \<ge> length data")
    case True
    with "1.prems" show ?thesis by (subst varint_loop.simps) simp
  next
    case in_range: False
    show ?thesis
    proof (cases "more_follows (data ! pos)")
      case False
      with in_range "1.prems" show ?thesis
        by (subst varint_loop.simps) (auto simp: more_follows_def intro: exI [of _ 0])
    next
      case more: True
      show ?thesis
      proof (cases "j = 4")
        case True
        with in_range more "1.prems" show ?thesis
          by (subst varint_loop.simps) (simp add: more_follows_def)
      next
        case False
        with "1.prems" have j: "Suc j \<le> 4" "shift + 7 = 7 * Suc j" "\<not> shift + 7 > 32"
          "5 - j = Suc (4 - j)"
          by simp_all
        from in_range more j(3)
        have "varint_loop data pos result shift =
              varint_loop data (pos + 1)
                (result OR push_bit shift (unat (data ! pos) AND 0x7F)) (shift + 7)"
          by (subst varint_loop.simps) (simp add: more_follows_def)
        moreover have "(varint_loop data (pos + 1)
               (result OR push_bit shift (unat (data ! pos) AND 0x7F)) (shift + 7)
             = Inl Varint_too_large) =
            (pos + 1 + (5 - Suc j) \<le> length data \<and>
             (\<forall>i<5 - Suc j. more_follows (data ! (pos + 1 + i))))"
          using in_range more j(3)
          by (intro "1.IH" [OF _ _ _ j(2) j(1)]) (simp_all add: more_follows_def)
        ultimately show ?thesis
          using more j(4) by (simp add: All_less_Suc2)
      qed
    qed
  qed
qed

lemma varint_truncated_aux:
  "shift = 7 * j \<Longrightarrow> j \<le> 4 \<Longrightarrow>
   (varint_loop data pos result shift = Inl Truncated_varint) =
   ((\<forall>i. pos \<le> i \<and> i < length data \<longrightarrow> more_follows (data ! i)) \<and>
    length data - pos < 5 - j)"
proof (induction data pos result shift arbitrary: j rule: varint_loop.induct)
  case (1 data pos result shift)
  show ?case
  proof (cases "pos \<ge> length data")
    case True
    with "1.prems" show ?thesis by (subst varint_loop.simps) auto
  next
    case in_range: False
    show ?thesis
    proof (cases "more_follows (data ! pos)")
      case False
      with in_range "1.prems" show ?thesis
        by (subst varint_loop.simps) (auto simp: more_follows_def intro: exI [of _ pos])
    next
      case more: True
      show ?thesis
      proof (cases "j = 4")
        case True
        with in_range more "1.prems" show ?thesis
          by (subst varint_loop.simps) (simp add: more_follows_def)
      next
        case False
        with "1.prems" have j: "Suc j \<le> 4" "shift + 7 = 7 * Suc j" "\<not> shift + 7 > 32"
          by simp_all
        from in_range more j(3)
        have "varint_loop data pos result shift =
              varint_loop data (pos + 1)
                (result OR push_bit shift (unat (data ! pos) AND 0x7F)) (shift + 7)"
          by (subst varint_loop.simps) (simp add: more_follows_def)
        moreover have "(varint_loop data (pos + 1)
               (result OR push_bit shift (unat (data ! pos) AND 0x7F)) (shift + 7)
             = Inl Truncated_varint) =
            ((\<forall>i. pos + 1 \<le> i \<and> i < length data \<longrightarrow> more_follows (data ! i)) \<and>
             length data - (pos + 1) < 5 - Suc j)"
          using in_range more j(3)
          by (intro "1.IH" [OF _ _ _ j(2) j(1)]) (simp_all add: more_follows_def)
        moreover have "(\<forall>i. pos \<le> i \<and> i < length data \<longrightarrow> more_follows (data ! i)) =
            (\<forall>i. pos + 1 \<le> i \<and> i < length data \<longrightarrow> more_follows (data ! i))"
          using more by (metis Suc_eq_plus1 Suc_leI le_neq_implies_less Suc_leD)
        moreover have "(length data - pos < 5 - j) = (length data - (pos + 1) < 5 - Suc j)"
          using in_range j(1) by auto
        ultimately show ?thesis by simp
      qed
    qed
  qed
qed

lemma varint_loop_errors:
  assumes "varint_loop data pos result shift = Inl e"
  shows "e = Truncated_varint \<or> e = Varint_too_large"
  using assms
proof (induction data pos result shift rule: varint_loop.induct)
  case (1 data pos result shift)
  show ?case
  proof (cases "\<not> pos \<ge> length data \<and> unat (data ! pos) AND 0x80 \<noteq> 0 \<and> \<not> shift + 7 > 32")
    case True
    with "1.prems" have "varint_loop data (pos + 1)
        (result OR push_bit shift (unat (data ! pos) AND 0x7F)) (shift + 7) = Inl e"
      by (subst (asm) varint_loop.simps) simp
    with True "1.IH" show ?thesis by simp
  next
    case False
    with "1.prems" show ?thesis
      by (subst (asm) varint_loop.simps) (auto split: if_splits)
  qed
qed

lemma decode_varint_errors:
  assumes "decode_varint data pos = Inl e"
  shows "(kind_of e = Overflow \<longleftrightarrow> e = Varint_too_large)
       \<and> (kind_of e = Truncated \<longleftrightarrow> e = Truncated_varint)"
  using varint_loop_errors [of data pos 0 0 e] assms
  by (auto simp: decode_varint_def)

lemma all_less_5: "(\<forall>i<5::nat. P i) = (P 0 \<and> P 1 \<and> P 2 \<and> P 3 \<and> P 4)"
proof
  assume "\<forall>i<5. P i"
  then show "P 0 \<and> P 1 \<and> P 2 \<and> P 3 \<and> P 4" by simp
next
  assume *: "P 0 \<and> P 1 \<and> P 2 \<and> P 3 \<and> P 4"
  show "\<forall>i<5. P i"
  proof (intro allI impI)
    fix i :: nat
    assume "i < 5"
    then have "i = 0 \<or> i = 1 \<or> i = 2 \<or> i = 3 \<or> i = 4" by arith
    with * show "P i" by auto
  qed
qed

text \<open>
  C4, as stated, fails. The claim has the reader fail with Overflow exactly when more than
  five continuation bytes are consumed. The input below holds exactly five continuation
  bytes and then a terminating byte, and the reader fails with "Varint too large": the
  test \<open>shift > 32\<close> of line 29 is made after \<open>shift += 7\<close>, and fires at \<open>shift = 35\<close>,
  when the fifth continuation byte has been consumed.
\<close>

theorem varint_overflow_exactly_five:
  "decode_varint [0x80, 0x80, 0x80, 0x80, 0x80, 0x00] 0 = Inl Varint_too_large
   \<and> kind_of Varint_too_large = Overflow
   \<and> length (takeWhile more_follows [0x80, 0x80, 0x80, 0x80, 0x80, 0x00]) = 5"
  by (simp add: decode_varint_def varint_loop.simps more_follows_def)

text \<open>
  C4, amended. The reader fails with an error of kind Overflow if and only if the input
  holds five bytes at the cursor and each of the five has its high bit set: five
  continuation bytes, not six, are what it takes. A varint that ends after at most four
  continuation bytes never raises it.
\<close>

theorem varint_overflow_iff:
  "(\<exists>e. decode_varint data pos = Inl e \<and> kind_of e = Overflow) \<longleftrightarrow>
   pos + 5 \<le> length data \<and> (\<forall>i<5. more_follows (data ! (pos + i)))"
proof -
  have "(\<exists>e. decode_varint data pos = Inl e \<and> kind_of e = Overflow) \<longleftrightarrow>
        decode_varint data pos = Inl Varint_too_large"
    using decode_varint_errors [of data pos] by auto
  also have "\<dots> \<longleftrightarrow> pos + 5 \<le> length data \<and> (\<forall>i<5. more_follows (data ! (pos + i)))"
    using varint_overflow_aux [of 0 0 data pos 0] by (simp add: decode_varint_def)
  finally show ?thesis .
qed

theorem varint_overflow_iff_witness:
  "(\<exists>e. decode_varint [0x01, 0xFF, 0x80, 0x81, 0xC0, 0xAA, 0x07] 1 = Inl e \<and> kind_of e = Overflow)
   \<and> \<not> (\<exists>e. decode_varint [0xFF, 0x80, 0x81, 0xC0, 0x07] 0 = Inl e \<and> kind_of e = Overflow)"
  using varint_overflow_iff [of "[0x01, 0xFF, 0x80, 0x81, 0xC0, 0xAA, 0x07]" 1]
    varint_overflow_iff [of "[0xFF, 0x80, 0x81, 0xC0, 0x07]" 0]
  by (simp add: more_follows_def all_less_5)

text \<open>
  C5, as stated, fails. On five bytes that all have the high bit set the cursor reaches
  the end of the input and no byte with the high bit clear has been seen, yet the error
  is "Varint too large", of kind Overflow: the test of line 29 comes before the next
  test of the cursor at line 21.
\<close>

theorem varint_five_bytes_no_terminator:
  "decode_varint [0x80, 0x80, 0x80, 0x80, 0x80] 0 = Inl Varint_too_large
   \<and> list_all more_follows [0x80, 0x80, 0x80, 0x80, 0x80]
   \<and> kind_of Varint_too_large \<noteq> Truncated"
  by (simp add: decode_varint_def varint_loop.simps more_follows_def)

text \<open>
  C5, amended. The reader fails with an error of kind Truncated if and only if every byte
  from the cursor to the end of the input has its high bit set and there are fewer than
  five of them: the cursor reaches the end before a byte with the high bit clear is
  seen, and before a fifth continuation byte is consumed. \<open>decompress\<close> fails with
  such an error on the one-byte input \<open>0x80\<close>.
\<close>

theorem varint_truncated_iff:
  "((\<exists>e. decode_varint data pos = Inl e \<and> kind_of e = Truncated) \<longleftrightarrow>
     (\<forall>i. pos \<le> i \<and> i < length data \<longrightarrow> more_follows (data ! i)) \<and> length data - pos < 5)
   \<and> (\<exists>e. decompress [0x80] = Inl e \<and> kind_of e = Truncated)"
proof -
  have "(\<exists>e. decode_varint data pos = Inl e \<and> kind_of e = Truncated) \<longleftrightarrow>
        decode_varint data pos = Inl Truncated_varint"
    using decode_varint_errors [of data pos] by auto
  also have "\<dots> \<longleftrightarrow>
     (\<forall>i. pos \<le> i \<and> i < length data \<longrightarrow> more_follows (data ! i)) \<and> length data - pos < 5"
    using varint_truncated_aux [of 0 0 data pos 0] by (simp add: decode_varint_def)
  finally have iff: "(\<exists>e. decode_varint data pos = Inl e \<and> kind_of e = Truncated) \<longleftrightarrow>
     (\<forall>i. pos \<le> i \<and> i < length data \<longrightarrow> more_follows (data ! i)) \<and> length data - pos < 5" .
  have "decode_varint [0x80] 0 = Inl Truncated_varint"
    by (simp add: decode_varint_def varint_loop.simps)
  then have "decompress [0x80] = Inl Truncated_varint"
    by (simp add: decompress_def)
  with iff show ?thesis by simp
qed

theorem varint_truncated_iff_witness:
  "\<exists>e. decode_varint [0x05, 0x80, 0xFF] 1 = Inl e \<and> kind_of e = Truncated"
proof -
  have "more_follows ([0x05, 0x80, 0xFF] ! i)"
    if "1 \<le> i \<and> i < length [0x05, 0x80, 0xFF :: byte]" for i
  proof -
    from that have "i = 1 \<or> i = 2" by auto
    then show ?thesis by (auto simp: more_follows_def)
  qed
  then show ?thesis
    using varint_truncated_iff [of "[0x05, 0x80, 0xFF]" 1] by simp
qed

section \<open>The copy loop\<close>

lemma copy_bytes_Suc:
  "copy_bytes output out_pos offset (Suc n) =
   copy_byte out_pos offset n (copy_bytes output out_pos offset n)"
  by (simp add: copy_bytes_def)

lemma copy_bytes_0: "copy_bytes output out_pos offset 0 = Inr output"
  by (simp add: copy_bytes_def)


section \<open>One element, and the loop\<close>

lemma fold_add_sum:
  fixes g :: "nat \<Rightarrow> nat"
  shows "fold (\<lambda>i acc. acc + g i) [0..<n] a = a + (\<Sum>i<n. g i)"
  by (induction n) simp_all

lemma literal_length_direct:
  assumes "drop_bit 2 tag + 1 \<le> 60"
  shows "literal_length data tag pos = Inr (drop_bit 2 tag + 1, pos)"
  using assms by (simp add: literal_length_def)

lemma literal_length_extended:
  assumes "drop_bit 2 tag + 1 = 60 + N" "0 < N" "pos + N \<le> length data"
  shows "literal_length data tag pos =
         Inr (1 + (\<Sum>i<N. unat (data ! (pos + i)) * 2 ^ (8 * i)), pos + N)"
  using assms
  by (simp add: literal_length_def fold_add_sum push_bit_eq_mult mult.commute)

lemma literal_length_ge1:
  assumes "literal_length data tag pos = Inr (len, pos')"
  shows "1 \<le> len \<and> pos \<le> pos'"
  using assms
  by (auto simp: literal_length_def Let_def fold_add_sum split: if_splits)

lemma copy_byte_length:
  "copy_byte out_pos offset i r = Inr out' \<Longrightarrow> \<exists>out. r = Inr out \<and> length out' = length out"
  by (auto simp: copy_byte_def split: sum.splits if_splits)

lemma copy_bytes_length:
  "copy_bytes output out_pos offset n = Inr out' \<Longrightarrow> length out' = length output"
proof (induction n arbitrary: out')
  case 0
  then show ?case by (simp add: copy_bytes_0)
next
  case (Suc n)
  from Suc.prems obtain out where "copy_bytes output out_pos offset n = Inr out"
    and "length out' = length out"
    by (auto simp: copy_bytes_Suc dest: copy_byte_length)
  with Suc.IH show ?case by simp
qed

lemma copy_element_inv:
  assumes "copy_element overflow len offset uncompressed_len pos output out_pos = Inr (pos', out', out_pos')"
  shows "pos' = pos \<and> length out' = length output \<and> out_pos' = out_pos + len
         \<and> out_pos' \<le> uncompressed_len"
  using assms
  by (auto simp: copy_element_def split: if_splits sum.splits dest: copy_bytes_length)

lemma literal_inv:
  assumes "literal data uncompressed_len tag pos output out_pos = Inr (pos', out', out_pos')"
    and "length output = uncompressed_len"
  shows "pos < pos' \<and> pos' \<le> length data \<and> length out' = uncompressed_len
         \<and> out_pos < out_pos' \<and> out_pos' \<le> uncompressed_len"
  using assms
  by (auto simp: literal_def split: sum.splits if_splits dest!: literal_length_ge1)

lemma decode_element_literal:
  assumes "unat (data ! pos) AND 3 = 0"
  shows "decode_element data uncompressed_len pos output out_pos =
         literal data uncompressed_len (unat (data ! pos)) (pos + 1) output out_pos"
  using assms by (simp add: decode_element_def)

lemma decode_element_copy1:
  assumes "unat (data ! pos) AND 3 = 1"
  shows "decode_element data uncompressed_len pos output out_pos =
         (if pos + 1 \<ge> length data then Inl Truncated_copy1_offset
          else copy_element Output_overflow_copy1 (copy1_length (unat (data ! pos)))
                 (copy1_offset data (unat (data ! pos)) (pos + 1))
                 uncompressed_len (pos + 1 + 1) output out_pos)"
  using assms by (simp add: decode_element_def Let_def)

lemma decode_element_copy2:
  assumes "unat (data ! pos) AND 3 = 2"
  shows "decode_element data uncompressed_len pos output out_pos =
         (if pos + 1 + 2 > length data then Inl Truncated_copy2_offset
          else copy_element Output_overflow_copy2 (drop_bit 2 (unat (data ! pos)) + 1)
                 (copy2_offset data (pos + 1))
                 uncompressed_len (pos + 1 + 2) output out_pos)"
  using assms by (simp add: decode_element_def Let_def)

lemma decode_element_copy4:
  assumes "unat (data ! pos) AND 3 \<noteq> 0" "unat (data ! pos) AND 3 \<noteq> 1" "unat (data ! pos) AND 3 \<noteq> 2"
  shows "decode_element data uncompressed_len pos output out_pos =
         (if pos + 1 + 4 > length data then Inl Truncated_copy4_offset
          else copy_element Output_overflow_copy4 (drop_bit 2 (unat (data ! pos)) + 1)
                 (copy4_offset data (pos + 1))
                 uncompressed_len (pos + 1 + 4) output out_pos)"
  using assms by (simp add: decode_element_def Let_def)

lemma decode_element_inv:
  assumes "decode_element data uncompressed_len pos output out_pos = Inr (pos', out', out_pos')"
    and "length output = uncompressed_len"
  shows "pos < pos' \<and> pos' \<le> length data \<and> length out' = uncompressed_len
         \<and> out_pos < out_pos' \<and> out_pos' \<le> uncompressed_len"
proof -
  let ?tag = "unat (data ! pos)"
  consider (lit) "?tag AND 3 = 0" | (c1) "?tag AND 3 = 1" | (c2) "?tag AND 3 = 2"
    | (c4) "?tag AND 3 \<noteq> 0" "?tag AND 3 \<noteq> 1" "?tag AND 3 \<noteq> 2"
    by blast
  then show ?thesis
  proof cases
    case lit
    with assms(1) have "literal data uncompressed_len ?tag (pos + 1) output out_pos = Inr (pos', out', out_pos')"
      by (simp add: decode_element_literal)
    from literal_inv [OF this assms(2)] show ?thesis by simp
  next
    case c1
    with assms show ?thesis
      by (auto simp: decode_element_copy1 copy1_length_def split: if_splits dest!: copy_element_inv)
  next
    case c2
    with assms show ?thesis
      by (auto simp: decode_element_copy2 split: if_splits dest!: copy_element_inv)
  next
    case c4
    with assms show ?thesis
      by (auto simp: decode_element_copy4 split: if_splits dest!: copy_element_inv)
  qed
qed

lemma decode_loop_inv:
  assumes "decode_loop data uncompressed_len pos buf out_pos = Inr (pos', out', out_pos')"
    and "length buf = uncompressed_len" "out_pos \<le> uncompressed_len" "pos \<le> length data"
  shows "length out' = uncompressed_len \<and> out_pos' \<le> uncompressed_len \<and> pos' \<le> length data
         \<and> pos \<le> pos' \<and> out_pos \<le> out_pos'
         \<and> (pos' = length data \<or> out_pos' = uncompressed_len)"
  using assms
proof (induction data uncompressed_len pos buf out_pos rule: decode_loop.induct)
  case (1 data uncompressed_len pos buf out_pos)
  show ?case
  proof (cases "pos < length data \<and> out_pos < uncompressed_len")
    case False
    with "1.prems" show ?thesis
      by (subst (asm) decode_loop.simps) auto
  next
    case True
    with "1.prems"(1) obtain p1 o1 op1
      where el: "decode_element data uncompressed_len pos buf out_pos = Inr (p1, o1, op1)"
        and rest: "decode_loop data uncompressed_len p1 o1 op1 = Inr (pos', out', out_pos')"
      by (subst (asm) decode_loop.simps) (auto split: sum.splits)
    from decode_element_inv [OF el "1.prems"(2)]
    have inv1: "pos < p1" "p1 \<le> length data" "length o1 = uncompressed_len"
      "out_pos < op1" "op1 \<le> uncompressed_len"
      by simp_all
    from "1.IH" [OF True el refl refl rest inv1(3) inv1(5) inv1(2)] inv1
    show ?thesis by auto
  qed
qed

lemma varint_loop_cursor:
  assumes "varint_loop data pos result shift = Inr (v, pos')"
  shows "pos < pos' \<and> pos' \<le> length data"
  using assms
proof (induction data pos result shift rule: varint_loop.induct)
  case (1 data pos result shift)
  from "1.prems" have in_range: "\<not> pos \<ge> length data"
    by (subst (asm) varint_loop.simps) (auto split: if_splits)
  show ?case
  proof (cases "unat (data ! pos) AND 0x80 = 0")
    case True
    with "1.prems" in_range show ?thesis
      by (subst (asm) varint_loop.simps) auto
  next
    case False
    with "1.prems" in_range have sh: "\<not> shift + 7 > 32"
      and rest: "varint_loop data (pos + 1)
             (result OR push_bit shift (unat (data ! pos) AND 0x7F)) (shift + 7) = Inr (v, pos')"
      by (subst (asm) varint_loop.simps, auto split: if_splits)+
    from "1.IH" [OF in_range False sh rest] show ?thesis by simp
  qed
qed

lemma decode_varint_cursor:
  "decode_varint data pos = Inr (v, pos') \<Longrightarrow> pos < pos' \<and> pos' \<le> length data"
  unfolding decode_varint_def by (rule varint_loop_cursor)


text \<open>
  Closed runs of the decoder are evaluated by unfolding these equations.
\<close>

lemmas snappy_eval = decompress_def decode_varint_def varint_loop.simps decode_loop.simps
  decode_element_def literal_def literal_length_def copy_element_def copy_bytes_def copy_byte_def
  copy1_length_def copy1_offset_def copy2_offset_def copy4_offset_def

section \<open>The result of \<open>decompress\<close>\<close>

text \<open>
  C1. When \<open>decompress\<close> succeeds, the length of the result is the length that the
  leading varint of the input decodes to; and on every input that is not empty, success
  means that this varint does decode. (On the empty input there is no varint, and line 58
  answers with the empty result before reading one.)
\<close>

theorem decompress_length:
  assumes "decompress data = Inr result"
  shows "(\<forall>uncompressed_len pos. decode_varint data 0 = Inr (uncompressed_len, pos) \<longrightarrow>
            length result = uncompressed_len)
       \<and> (data \<noteq> [] \<longrightarrow> (\<exists>uncompressed_len pos. decode_varint data 0 = Inr (uncompressed_len, pos)))"
proof (cases "data = []")
  case True
  then show ?thesis
    by (simp add: decode_varint_def varint_loop.simps)
next
  case False
  with assms obtain uncompressed_len pos where v: "decode_varint data 0 = Inr (uncompressed_len, pos)"
    by (auto simp: decompress_def split: sum.splits)
  with assms False obtain pos' out_pos'
    where "decode_loop data uncompressed_len pos (replicate uncompressed_len 0) 0
           = Inr (pos', result, out_pos')"
    by (auto simp: decompress_def split: sum.splits if_splits)
  moreover from v have "pos \<le> length data"
    by (auto dest: decode_varint_cursor)
  ultimately have "length result = uncompressed_len"
    by (auto dest!: decode_loop_inv)
  with v show ?thesis by simp
qed

theorem decompress_length_witness:
  "length [0x48, 0x69 :: byte] = 2 \<and> decode_varint [0x02, 0x04, 0x48, 0x69] 0 = Inr (2, 1)"
proof -
  have "decompress [0x02, 0x04, 0x48, 0x69] = Inr [0x48, 0x69]"
    by (simp add: snappy_eval)
  from decompress_length [OF this] show ?thesis
    by (simp add: decode_varint_def varint_loop.simps)
qed

text \<open>
  C8. When the loop of \<open>decompress\<close> ends with \<open>out_pos\<close> different from the declared
  length, \<open>decompress\<close> fails with "Output size mismatch", of kind SizeMismatch; the
  loop has then stopped because the input was exhausted, short of the declared length.
  An instance is the stream that declares 10 bytes and holds one literal of 2 bytes.
\<close>

theorem decompress_size_mismatch:
  assumes "data \<noteq> []" and "decode_varint data 0 = Inr (uncompressed_len, pos)"
    and "decode_loop data uncompressed_len pos (replicate uncompressed_len 0) 0
         = Inr (pos', out', out_pos')"
    and "out_pos' \<noteq> uncompressed_len"
  shows "decompress data = Inl (Output_size_mismatch uncompressed_len out_pos')
         \<and> kind_of (Output_size_mismatch uncompressed_len out_pos') = SizeMismatch
         \<and> pos' = length data \<and> out_pos' < uncompressed_len"
proof -
  from assms(2) have "pos \<le> length data"
    by (auto dest: decode_varint_cursor)
  with assms(3) have "out_pos' \<le> uncompressed_len"
    and "pos' = length data \<or> out_pos' = uncompressed_len"
    by (auto dest!: decode_loop_inv)
  with assms show ?thesis by (simp add: decompress_def)
qed

theorem decompress_size_mismatch_witness:
  "decompress [0x0A, 0x04, 0x41, 0x42] = Inl (Output_size_mismatch 10 2)"
proof -
  have "decode_varint [0x0A, 0x04, 0x41, 0x42] 0 = Inr (10, 1)"
    by (simp add: decode_varint_def varint_loop.simps)
  moreover have "decode_loop [0x0A, 0x04, 0x41, 0x42] 10 1 (replicate 10 0) 0
      = Inr (4, [0x41, 0x42] @ replicate 8 0, 2)"
    by (simp add: snappy_eval)
  ultimately show ?thesis
    using decompress_size_mismatch [of "[0x0A, 0x04, 0x41, 0x42]" 10 1 4 "[0x41, 0x42] @ replicate 8 0" 2]
    by simp
qed

section \<open>Copies\<close>



section \<open>Literals\<close>

lemma sum_lessThan_2:
  fixes f :: "nat \<Rightarrow> nat"
  shows "(\<Sum>i<2. f i) = f 0 + f 1"
  by (simp add: numeral_2_eq_2)

lemma literal_length_truncated:
  assumes "drop_bit 2 tag + 1 = 60 + N" "0 < N" "pos + N > length data"
  shows "literal_length data tag pos = Inl Truncated_literal_length"
  using assms by (simp add: literal_length_def)

text \<open>
  C6. Take an element whose tag has kind 0, read at \<open>pos\<close>. When \<open>(tag >> 2) + 1\<close> is at
  most 60, no length byte is read: the cursor after the tag is where the literal bytes
  start, and the element copies that many bytes from there to the output at \<open>out_pos\<close>,
  moving both cursors by that count (or fails, when the input or the declared length is
  too short for them). When it is \<open>60 + N\<close> with \<open>N\<close> positive, \<open>N\<close> is at most 4; the
  element fails with "Truncated literal length" when the \<open>N\<close> bytes after the tag are not
  all there; otherwise the length is 1 plus the little-endian value of these \<open>N\<close> bytes,
  the literal bytes start after them, and the element copies that many bytes, the input
  cursor ending past the tag, the \<open>N\<close> length bytes and the literal. The tag \<open>0xEC\<close>
  gives a literal of 60 bytes taken right after the tag; the tag \<open>0xF0\<close> followed by the
  byte 60 gives a literal of 61 bytes taken after that one length byte.
\<close>

theorem literal_length_cases:
  assumes "pos < length data" and "tag = unat (data ! pos)" and "tag AND 3 = 0"
  shows
    "(drop_bit 2 tag + 1 \<le> 60 \<longrightarrow>
        literal_length data tag (pos + 1) = Inr (drop_bit 2 tag + 1, pos + 1)
      \<and> decode_element data uncompressed_len pos buf out_pos =
          (if pos + 1 + (drop_bit 2 tag + 1) > length data then Inl Truncated_literal_data
           else if out_pos + (drop_bit 2 tag + 1) > uncompressed_len
             then Inl Output_overflow_literal
           else Inr (pos + 1 + (drop_bit 2 tag + 1),
                     take out_pos buf @ take (drop_bit 2 tag + 1) (drop (pos + 1) data)
                       @ drop (out_pos + (drop_bit 2 tag + 1)) buf,
                     out_pos + (drop_bit 2 tag + 1))))
   \<and> (drop_bit 2 tag + 1 = 60 + N \<and> 0 < N \<longrightarrow>
        N \<le> 4
      \<and> (pos + 1 + N > length data \<longrightarrow>
            decode_element data uncompressed_len pos buf out_pos = Inl Truncated_literal_length)
      \<and> (pos + 1 + N \<le> length data
           \<and> L = 1 + (\<Sum>i<N. unat (data ! (pos + 1 + i)) * 2 ^ (8 * i)) \<longrightarrow>
            literal_length data tag (pos + 1) = Inr (L, pos + 1 + N)
          \<and> decode_element data uncompressed_len pos buf out_pos =
              (if pos + 1 + N + L > length data then Inl Truncated_literal_data
               else if out_pos + L > uncompressed_len then Inl Output_overflow_literal
               else Inr (pos + 1 + N + L,
                         take out_pos buf @ take L (drop (pos + 1 + N) data)
                           @ drop (out_pos + L) buf,
                         out_pos + L))))
   \<and> (data ! pos = 0xEC \<and> pos + 61 \<le> length data \<and> out_pos + 60 \<le> uncompressed_len \<longrightarrow>
        decode_element data uncompressed_len pos buf out_pos =
          Inr (pos + 61,
               take out_pos buf @ take 60 (drop (pos + 1) data) @ drop (out_pos + 60) buf,
               out_pos + 60))
   \<and> (data ! pos = 0xF0 \<and> data ! (pos + 1) = 60 \<and> pos + 63 \<le> length data
        \<and> out_pos + 61 \<le> uncompressed_len \<longrightarrow>
        decode_element data uncompressed_len pos buf out_pos =
          Inr (pos + 63,
               take out_pos buf @ take 61 (drop (pos + 2) data) @ drop (out_pos + 61) buf,
               out_pos + 61))"
proof -
  have el: "decode_element data uncompressed_len pos buf out_pos =
            literal data uncompressed_len tag (pos + 1) buf out_pos"
    using assms(2,3) by (simp add: decode_element_literal)
  have direct: "literal_length data tag (pos + 1) = Inr (drop_bit 2 tag + 1, pos + 1)
      \<and> decode_element data uncompressed_len pos buf out_pos =
          (if pos + 1 + (drop_bit 2 tag + 1) > length data then Inl Truncated_literal_data
           else if out_pos + (drop_bit 2 tag + 1) > uncompressed_len
             then Inl Output_overflow_literal
           else Inr (pos + 1 + (drop_bit 2 tag + 1),
                     take out_pos buf @ take (drop_bit 2 tag + 1) (drop (pos + 1) data)
                       @ drop (out_pos + (drop_bit 2 tag + 1)) buf,
                     out_pos + (drop_bit 2 tag + 1)))"
    if "drop_bit 2 tag + 1 \<le> 60"
    using literal_length_direct [OF that, of data "pos + 1"]
    by (simp add: el literal_def)
  have bound: "N \<le> 4" if "drop_bit 2 tag + 1 = 60 + N"
    using that drop_bit_2_byte [of "data ! pos"] assms(2) by simp
  have trunc: "decode_element data uncompressed_len pos buf out_pos = Inl Truncated_literal_length"
    if "drop_bit 2 tag + 1 = 60 + N" "0 < N" "pos + 1 + N > length data"
    using literal_length_truncated [OF that] by (simp add: el literal_def)
  have ext: "literal_length data tag (pos + 1) = Inr (L, pos + 1 + N)
          \<and> decode_element data uncompressed_len pos buf out_pos =
              (if pos + 1 + N + L > length data then Inl Truncated_literal_data
               else if out_pos + L > uncompressed_len then Inl Output_overflow_literal
               else Inr (pos + 1 + N + L,
                         take out_pos buf @ take L (drop (pos + 1 + N) data)
                           @ drop (out_pos + L) buf,
                         out_pos + L))"
    if "drop_bit 2 tag + 1 = 60 + N" "0 < N" "pos + 1 + N \<le> length data"
      "L = 1 + (\<Sum>i<N. unat (data ! (pos + 1 + i)) * 2 ^ (8 * i))"
    using literal_length_extended [OF that(1-3)] that(4)
    by (simp add: el literal_def)
  have ex60: "decode_element data uncompressed_len pos buf out_pos =
          Inr (pos + 61,
               take out_pos buf @ take 60 (drop (pos + 1) data) @ drop (out_pos + 60) buf,
               out_pos + 60)"
    if "data ! pos = 0xEC" "pos + 61 \<le> length data" "out_pos + 60 \<le> uncompressed_len"
  proof -
    from that(1) assms(2) have "tag = 236" by simp
    then have "literal_length data tag (pos + 1) = Inr (60, pos + 1)"
      by (simp add: literal_length_def)
    with that(2,3) show ?thesis by (simp add: el literal_def)
  qed
  have ex61: "decode_element data uncompressed_len pos buf out_pos =
          Inr (pos + 63,
               take out_pos buf @ take 61 (drop (pos + 2) data) @ drop (out_pos + 61) buf,
               out_pos + 61)"
    if "data ! pos = 0xF0" "data ! (pos + 1) = 60" "pos + 63 \<le> length data"
      "out_pos + 61 \<le> uncompressed_len"
  proof -
    from that(1) assms(2) have "tag = 240" by simp
    with that(2,3) have "literal_length data tag (pos + 1) = Inr (61, pos + 2)"
      using literal_length_extended [of 240 1 "pos + 1" data] by simp
    with that(3,4) show ?thesis by (simp add: el literal_def)
  qed
  from direct bound trunc ext ex60 ex61 show ?thesis by blast
qed

theorem literal_length_cases_witness:
  "decode_element [0x02, 0x04, 0x48, 0x69] 2 1 [0, 0] 0 = Inr (4, [0x48, 0x69], 2)
   \<and> decode_element [0xF4, 0x02, 0x00, 0x41, 0x42, 0x43] 3 0 [0, 0, 0] 0
       = Inr (6, [0x41, 0x42, 0x43], 3)
   \<and> literal_length [0xF4, 0x02, 0x00, 0x41, 0x42, 0x43] 0xF4 1 = Inr (3, 3)"
proof -
  let ?d = "[0x02, 0x04, 0x48, 0x69] :: byte list"
  let ?e = "[0xF4, 0x02, 0x00, 0x41, 0x42, 0x43] :: byte list"
  have d: "1 < length ?d" "4 = unat (?d ! 1)" "(4::nat) AND 3 = 0"
    by simp_all
  have e: "0 < length ?e" "244 = unat (?e ! 0)" "(244::nat) AND 3 = 0"
    by simp_all
  have s: "(3::nat) = 1 + (\<Sum>i<2. unat (?e ! (0 + 1 + i)) * 2 ^ (8 * i))"
    by (simp add: sum_lessThan_2)
  from literal_length_cases [OF d, where N = 0 and L = 0 and uncompressed_len = 2
      and buf = "[0, 0]" and out_pos = 0]
  have "decode_element ?d 2 1 [0, 0] 0 = Inr (4, [0x48, 0x69], 2)"
    by simp
  moreover from literal_length_cases [OF e, where N = 2 and L = 3 and uncompressed_len = 3
      and buf = "[0, 0, 0]" and out_pos = 0] s
  have "literal_length ?e 0xF4 1 = Inr (3, 3)
      \<and> decode_element ?e 3 0 [0, 0, 0] 0 = Inr (6, [0x41, 0x42, 0x43], 3)"
    by simp
  ultimately show ?thesis by simp
qed

text \<open>
  C10. A literal whose tag announces \<open>N\<close> length bytes is decoded with the length that
  these bytes give, whatever that length is: there is no test that it exceeds 60. The
  one-byte literal written with the tag \<open>0xF0\<close> and the length byte \<open>0x00\<close> decodes to
  the same output as the one written with the tag \<open>0x00\<close>.
\<close>

theorem nonminimal_literal_accepted:
  assumes "pos < length data" and "unat (data ! pos) AND 3 = 0"
    and "drop_bit 2 (unat (data ! pos)) + 1 = 60 + N" and "0 < N"
    and "pos + 1 + N \<le> length data"
    and "L = 1 + (\<Sum>i<N. unat (data ! (pos + 1 + i)) * 2 ^ (8 * i))"
    and "pos + 1 + N + L \<le> length data" and "out_pos + L \<le> uncompressed_len"
  shows "decode_element data uncompressed_len pos buf out_pos =
         Inr (pos + 1 + N + L,
              take out_pos buf @ take L (drop (pos + 1 + N) data) @ drop (out_pos + L) buf,
              out_pos + L)
       \<and> decompress [0x01, 0xF0, 0x00, 0x41] = Inr [0x41]
       \<and> decompress [0x01, 0x00, 0x41] = Inr [0x41]"
proof -
  from assms(3-6) have "literal_length data (unat (data ! pos)) (pos + 1) = Inr (L, pos + 1 + N)"
    by (simp add: literal_length_extended)
  with assms(7,8) have "literal data uncompressed_len (unat (data ! pos)) (pos + 1) buf out_pos =
         Inr (pos + 1 + N + L,
              take out_pos buf @ take L (drop (pos + 1 + N) data) @ drop (out_pos + L) buf,
              out_pos + L)"
    by (simp add: literal_def)
  moreover have "decompress [0x01, 0xF0, 0x00, 0x41] = Inr [0x41]"
    by (simp add: snappy_eval)
  moreover have "decompress [0x01, 0x00, 0x41] = Inr [0x41]"
    by (simp add: snappy_eval)
  ultimately show ?thesis
    using assms(2) by (simp add: decode_element_literal)
qed

theorem nonminimal_literal_accepted_witness:
  "decode_element [0x03, 0xF4, 0x02, 0x00, 0x41, 0x42, 0x43] 3 1 [0, 0, 0] 0
   = Inr (7, [0x41, 0x42, 0x43], 3)"
proof -
  let ?data = "[0x03, 0xF4, 0x02, 0x00, 0x41, 0x42, 0x43] :: byte list"
  have "1 < length ?data" and "unat (?data ! 1) AND 3 = 0"
    and "drop_bit 2 (unat (?data ! 1)) + 1 = 60 + 2" and "0 < (2::nat)"
    and "1 + 1 + 2 \<le> length ?data"
    and "3 = 1 + (\<Sum>i<2. unat (?data ! (1 + 1 + i)) * 2 ^ (8 * i))"
    and "1 + 1 + 2 + 3 \<le> length ?data" and "0 + 3 \<le> (3::nat)"
    by (simp_all add: sum_lessThan_2)
  from nonminimal_literal_accepted [OF this, of "[0, 0, 0]"] show ?thesis
    by simp
qed

section \<open>Invalid offsets\<close>

lemma reaches_decode_loop:
  assumes "reaches data uncompressed_len s s'"
  shows "(case s of (p, b, op) \<Rightarrow> decode_loop data uncompressed_len p b op) =
         (case s' of (p, b, op) \<Rightarrow> decode_loop data uncompressed_len p b op)"
  using assms
proof (induction rule: reaches.induct)
  case (start s)
  show ?case by simp
next
  case (step s pos buf out_pos s')
  from step.hyps(2-4)
  have "decode_loop data uncompressed_len pos buf out_pos =
        (case s' of (p, b, op) \<Rightarrow> decode_loop data uncompressed_len p b op)"
    by (subst decode_loop.simps) (simp split: prod.splits)
  with step.IH show ?case by simp
qed

lemma copy_element_bad_offset:
  assumes "offset = 0 \<or> offset > out_pos"
  shows "copy_element overflow len offset uncompressed_len pos buf out_pos =
         Inl (if offset = 0 then Invalid_zero_offset else Copy_offset_exceeds offset out_pos)"
  using assms by (auto simp: copy_element_def)

text \<open>
  C7. Take a run of \<open>decompress\<close> that has read the length and reached a state where the
  loop goes on, and let the element there be a copy of any of the three kinds whose
  offset bytes are present. If the offset it decodes is 0, or greater than \<open>out_pos\<close>,
  the element fails with "Invalid zero offset in copy" or "Copy offset ... exceeds output
  position ...", both of kind InvalidOffset, and this is the result of \<open>decompress\<close>:
  an error, with no output. Nothing is assumed on the length of the copy, so the two
  tests come before the overflow test and before any byte is written.
\<close>

theorem invalid_offset_rejected:
  assumes "data \<noteq> []" and "decode_varint data 0 = Inr (uncompressed_len, pos0)"
    and "reaches data uncompressed_len (pos0, replicate uncompressed_len 0, 0) (pos, buf, out_pos)"
    and "pos < length data" and "out_pos < uncompressed_len"
    and "(unat (data ! pos) AND 3 = 1 \<and> pos + 2 \<le> length data
            \<and> offset = copy1_offset data (unat (data ! pos)) (pos + 1))
       \<or> (unat (data ! pos) AND 3 = 2 \<and> pos + 3 \<le> length data
            \<and> offset = copy2_offset data (pos + 1))
       \<or> (unat (data ! pos) AND 3 = 3 \<and> pos + 5 \<le> length data
            \<and> offset = copy4_offset data (pos + 1))"
    and "offset = 0 \<or> offset > out_pos"
  shows "decode_element data uncompressed_len pos buf out_pos =
           Inl (if offset = 0 then Invalid_zero_offset else Copy_offset_exceeds offset out_pos)
       \<and> decompress data =
           Inl (if offset = 0 then Invalid_zero_offset else Copy_offset_exceeds offset out_pos)
       \<and> kind_of (if offset = 0 then Invalid_zero_offset else Copy_offset_exceeds offset out_pos)
           = InvalidOffset"
proof -
  let ?e = "if offset = 0 then Invalid_zero_offset else Copy_offset_exceeds offset out_pos"
  from assms(6) have el: "decode_element data uncompressed_len pos buf out_pos = Inl ?e"
  proof (elim disjE conjE)
    assume "unat (data ! pos) AND 3 = 1" "pos + 2 \<le> length data"
      "offset = copy1_offset data (unat (data ! pos)) (pos + 1)"
    with assms(7) show ?thesis
      by (simp add: decode_element_copy1 copy_element_bad_offset)
  next
    assume "unat (data ! pos) AND 3 = 2" "pos + 3 \<le> length data"
      "offset = copy2_offset data (pos + 1)"
    with assms(7) show ?thesis
      by (simp add: decode_element_copy2 copy_element_bad_offset)
  next
    assume "unat (data ! pos) AND 3 = 3" "pos + 5 \<le> length data"
      "offset = copy4_offset data (pos + 1)"
    with assms(7) show ?thesis
      by (simp add: decode_element_copy4 copy_element_bad_offset)
  qed
  with assms(4,5) have "decode_loop data uncompressed_len pos buf out_pos = Inl ?e"
    by (subst decode_loop.simps) simp
  with reaches_decode_loop [OF assms(3)]
  have "decode_loop data uncompressed_len pos0 (replicate uncompressed_len 0) 0 = Inl ?e"
    by simp
  with assms(1,2) have "decompress data = Inl ?e"
    by (simp add: decompress_def)
  with el show ?thesis by simp
qed

theorem invalid_offset_rejected_witness:
  "decompress [0x02, 0x00, 0x41, 0x05, 0x00] = Inl Invalid_zero_offset
   \<and> decompress [0x03, 0x00, 0x41, 0x06, 0x02, 0x00] = Inl (Copy_offset_exceeds 2 1)"
proof -
  let ?d = "[0x02, 0x00, 0x41, 0x05, 0x00] :: byte list"
  have v: "decode_varint ?d 0 = Inr (2, 1)"
    by (simp add: decode_varint_def varint_loop.simps)
  have "decode_element ?d 2 1 (replicate 2 0) 0 = Inr (3, [0x41, 0], 1)"
    by code_simp
  then have r: "reaches ?d 2 (1, replicate 2 0, 0) (3, [0x41, 0], 1)"
    by (intro reaches.step [OF reaches.start]) simp_all
  have k: "(unat (?d ! 3) AND 3 = 1 \<and> 3 + 2 \<le> length ?d
            \<and> 0 = copy1_offset ?d (unat (?d ! 3)) (3 + 1))
       \<or> (unat (?d ! 3) AND 3 = 2 \<and> 3 + 3 \<le> length ?d
            \<and> 0 = copy2_offset ?d (3 + 1))
       \<or> (unat (?d ! 3) AND 3 = 3 \<and> 3 + 5 \<le> length ?d
            \<and> 0 = copy4_offset ?d (3 + 1))"
    by (simp add: copy1_offset_def)
  let ?d' = "[0x03, 0x00, 0x41, 0x06, 0x02, 0x00] :: byte list"
  have v': "decode_varint ?d' 0 = Inr (3, 1)"
    by (simp add: decode_varint_def varint_loop.simps)
  have "decode_element ?d' 3 1 (replicate 3 0) 0 = Inr (3, [0x41, 0, 0], 1)"
    by code_simp
  then have r': "reaches ?d' 3 (1, replicate 3 0, 0) (3, [0x41, 0, 0], 1)"
    by (intro reaches.step [OF reaches.start]) simp_all
  have k': "(unat (?d' ! 3) AND 3 = 1 \<and> 3 + 2 \<le> length ?d'
            \<and> 2 = copy1_offset ?d' (unat (?d' ! 3)) (3 + 1))
       \<or> (unat (?d' ! 3) AND 3 = 2 \<and> 3 + 3 \<le> length ?d'
            \<and> 2 = copy2_offset ?d' (3 + 1))
       \<or> (unat (?d' ! 3) AND 3 = 3 \<and> 3 + 5 \<le> length ?d'
            \<and> 2 = copy4_offset ?d' (3 + 1))"
    by (simp add: copy2_offset_def)
  from invalid_offset_rejected [OF _ v r _ _ k] invalid_offset_rejected [OF _ v' r' _ _ k']
  show ?thesis by simp
qed

section \<open>Bytes after the last element\<close>

text \<open>
  A run that succeeds reads only the bytes it has, so that it is the same run on any
  longer input.
\<close>

lemma varint_loop_append:
  assumes "varint_loop data pos result shift = Inr v"
  shows "varint_loop (data @ extra) pos result shift = Inr v"
  using assms
proof (induction data pos result shift rule: varint_loop.induct)
  case (1 data pos result shift)
  from "1.prems" have in_range: "\<not> pos \<ge> length data"
    by (subst (asm) varint_loop.simps) (auto split: if_splits)
  then have same: "(data @ extra) ! pos = data ! pos" "\<not> pos \<ge> length (data @ extra)"
    by (simp_all add: nth_append)
  show ?case
  proof (cases "unat (data ! pos) AND 0x80 = 0")
    case True
    with "1.prems" in_range same show ?thesis
      by (subst varint_loop.simps, subst (asm) varint_loop.simps) simp
  next
    case False
    with "1.prems" in_range have sh: "\<not> shift + 7 > 32"
      and rest: "varint_loop data (pos + 1)
             (result OR push_bit shift (unat (data ! pos) AND 0x7F)) (shift + 7) = Inr v"
      by (subst (asm) varint_loop.simps, auto split: if_splits)+
    from "1.IH" [OF in_range False sh rest] False sh same show ?thesis
      by (subst varint_loop.simps) simp
  qed
qed

lemma literal_length_append:
  assumes "literal_length data tag pos = Inr v"
  shows "literal_length (data @ extra) tag pos = Inr v"
proof (cases "drop_bit 2 tag + 1 \<le> 60")
  case True
  with assms show ?thesis by (simp add: literal_length_def)
next
  case False
  let ?n = "drop_bit 2 tag + 1 - 60"
  from False assms have fits: "pos + ?n \<le> length data"
    by (auto simp: literal_length_def Let_def split: if_splits)
  have "fold (\<lambda>i len. len + push_bit (i * 8) (unat ((data @ extra) ! (pos + i)))) [0..<?n] 1 =
        fold (\<lambda>i len. len + push_bit (i * 8) (unat (data ! (pos + i)))) [0..<?n] 1"
    using fits by (intro fold_cong) (auto simp: nth_append)
  with False assms fits show ?thesis
    by (simp add: literal_length_def Let_def)
qed

lemma literal_append:
  assumes "literal data uncompressed_len tag pos buf out_pos = Inr v"
  shows "literal (data @ extra) uncompressed_len tag pos buf out_pos = Inr v"
proof -
  from assms obtain len p where ll: "literal_length data tag pos = Inr (len, p)"
    by (auto simp: literal_def split: sum.splits)
  with assms have "p + len \<le> length data"
    by (auto simp: literal_def split: if_splits)
  with assms ll literal_length_append [OF ll, of extra] show ?thesis
    by (auto simp: literal_def split: if_splits)
qed

lemma decode_element_append:
  assumes "decode_element data uncompressed_len pos buf out_pos = Inr v" and "pos < length data"
  shows "decode_element (data @ extra) uncompressed_len pos buf out_pos = Inr v"
proof -
  let ?tag = "unat (data ! pos)"
  from assms(2) have tag: "(data @ extra) ! pos = data ! pos"
    by (simp add: nth_append)
  consider (lit) "?tag AND 3 = 0" | (c1) "?tag AND 3 = 1" | (c2) "?tag AND 3 = 2"
    | (c4) "?tag AND 3 \<noteq> 0" "?tag AND 3 \<noteq> 1" "?tag AND 3 \<noteq> 2"
    by blast
  then show ?thesis
  proof cases
    case lit
    with assms(1) have "literal data uncompressed_len ?tag (pos + 1) buf out_pos = Inr v"
      by (simp add: decode_element_literal)
    from literal_append [OF this, of extra] lit tag show ?thesis
      by (simp add: decode_element_literal)
  next
    case c1
    with assms(1) have "pos + 1 < length data"
      by (auto simp: decode_element_copy1 split: if_splits)
    with assms(1) c1 tag show ?thesis
      by (simp add: decode_element_copy1 copy1_offset_def nth_append)
  next
    case c2
    with assms(1) have "pos + 1 + 2 \<le> length data"
      by (auto simp: decode_element_copy2 split: if_splits)
    with assms(1) c2 tag show ?thesis
      by (simp add: decode_element_copy2 copy2_offset_def nth_append)
  next
    case c4
    with assms(1) have "pos + 1 + 4 \<le> length data"
      by (auto simp: decode_element_copy4 split: if_splits)
    with assms(1) c4 tag show ?thesis
      by (simp add: decode_element_copy4 copy4_offset_def nth_append)
  qed
qed

lemma decode_loop_append:
  assumes "decode_loop data uncompressed_len pos buf out_pos = Inr (pos', out', uncompressed_len)"
  shows "decode_loop (data @ extra) uncompressed_len pos buf out_pos = Inr (pos', out', uncompressed_len)"
  using assms
proof (induction data uncompressed_len pos buf out_pos rule: decode_loop.induct)
  case (1 data uncompressed_len pos buf out_pos)
  show ?case
  proof (cases "pos < length data \<and> out_pos < uncompressed_len")
    case False
    with "1.prems" have "pos' = pos" "out' = buf" "out_pos = uncompressed_len"
      by (subst (asm) decode_loop.simps, simp)+
    then show ?thesis
      by (subst decode_loop.simps) simp
  next
    case True
    with "1.prems" obtain p1 o1 op1
      where el: "decode_element data uncompressed_len pos buf out_pos = Inr (p1, o1, op1)"
        and rest: "decode_loop data uncompressed_len p1 o1 op1 = Inr (pos', out', uncompressed_len)"
      by (subst (asm) decode_loop.simps) (auto split: sum.splits)
    from True el have "decode_element (data @ extra) uncompressed_len pos buf out_pos = Inr (p1, o1, op1)"
      by (intro decode_element_append) simp_all
    with True "1.IH" [OF True el refl refl rest] show ?thesis
      by (subst decode_loop.simps) simp
  qed
qed

text \<open>
  C9, as stated, fails. The input below declares one byte, holds a literal of one byte
  and then the byte \<open>0xFF\<close>. The loop of line 69 stops as soon as \<open>out_pos\<close> is the
  declared length, with the cursor at 3 of 4 bytes, and line 169 tests \<open>out_pos\<close> only:
  the input decodes successfully.
\<close>

theorem trailing_bytes_accepted:
  "decompress [0x01, 0x00, 0x41, 0xFF] = Inr [0x41]
   \<and> decode_loop [0x01, 0x00, 0x41, 0xFF] 1 1 (replicate 1 0) 0 = Inr (3, [0x41], 1)
   \<and> (3::nat) < length [0x01, 0x00, 0x41, 0xFF :: byte]"
  by (simp add: snappy_eval)

text \<open>
  C9, amended. When \<open>decompress\<close> succeeds on an input that is not empty, the loop has
  ended with \<open>out_pos\<close> equal to the declared length and the cursor at most the length
  of the input; whatever bytes are appended to such an input, it decodes successfully to
  the same output.
\<close>

theorem trailing_bytes_ignored:
  assumes "decompress data = Inr result" and "data \<noteq> []"
  shows "\<exists>uncompressed_len pos pos'.
           decode_varint data 0 = Inr (uncompressed_len, pos)
         \<and> decode_loop data uncompressed_len pos (replicate uncompressed_len 0) 0
             = Inr (pos', result, uncompressed_len)
         \<and> pos' \<le> length data
         \<and> (\<forall>extra. decompress (data @ extra) = Inr result)"
proof -
  from assms obtain uncompressed_len pos where v: "decode_varint data 0 = Inr (uncompressed_len, pos)"
    by (auto simp: decompress_def split: sum.splits)
  with assms obtain pos'
    where run: "decode_loop data uncompressed_len pos (replicate uncompressed_len 0) 0
           = Inr (pos', result, uncompressed_len)"
    by (auto simp: decompress_def split: sum.splits if_splits)
  from v have "pos \<le> length data"
    by (auto dest: decode_varint_cursor)
  with run have "pos' \<le> length data"
    by (auto dest!: decode_loop_inv)
  moreover have "decompress (data @ extra) = Inr result" for extra
  proof -
    from v have "decode_varint (data @ extra) 0 = Inr (uncompressed_len, pos)"
      unfolding decode_varint_def by (rule varint_loop_append)
    with decode_loop_append [OF run, of extra] assms(2) show ?thesis
      by (simp add: decompress_def)
  qed
  ultimately show ?thesis using v run by blast
qed

theorem trailing_bytes_ignored_witness:
  "decompress ([0x02, 0x04, 0x48, 0x69] @ [0x00, 0x01, 0x02]) = Inr [0x48, 0x69]"
proof -
  have "decompress [0x02, 0x04, 0x48, 0x69] = Inr [0x48, 0x69]"
    by (simp add: snappy_eval)
  from trailing_bytes_ignored [OF this] show ?thesis
    by blast
qed

end
